theory Spec2Isabelle
  imports Main "HOL-Library.Sublist"
begin

section \<open>The proxy supervisor: command-line flags\<close>

text \<open>
  The entry point of \<^verbatim>\<open>rocketpool-pow-proxy\<close> declares seven string flags and reads
  them with \<^verbatim>\<open>c.GlobalString\<close>. Go strings are byte sequences compared bytewise, so a
  flag value is a \<^typ>\<open>string\<close>.
\<close>

record flags =
  httpPort :: string
  wsPort :: string
  httpProviderUrl :: string
  wsProviderUrl :: string
  network :: string
  projectId :: string
  providerType :: string

text \<open>The \<^verbatim>\<open>Value\<close> field of each entry of \<^verbatim>\<open>app.Flags\<close>.\<close>

definition default_flags :: flags where
  "default_flags =
     \<lparr>httpPort = ''8545'', wsPort = ''8546'', httpProviderUrl = '''', wsProviderUrl = '''',
      network = ''goerli'', projectId = '''', providerType = ''infura''\<rparr>"

section \<open>The two goroutines of \<^verbatim>\<open>app.Action\<close>\<close>

text \<open>
  Everything a goroutine does is a call into the \<^verbatim>\<open>proxy\<close> package, the \<^verbatim>\<open>log\<close>
  package or the wait group. A goroutine body is the list of the calls it makes, in program
  order, with the argument values it passes. \<^verbatim>\<open>Start\<close> is called on the server the
  constructor just returned; it is the call that listens on the local port.
\<close>

datatype call =
    NewHttpProxyServer string string string string string
  | HttpStart
  | NewWsProxyServer string string string string
  | WsStart
  | LogPrintln string
  | WgDone

definition http_only_notice :: string where
  "http_only_notice = ''No websocket URL provided, running in HTTP-only mode.''"

definition http_goroutine :: "flags \<Rightarrow> call list" where
  "http_goroutine c =
     [NewHttpProxyServer (httpPort c) (httpProviderUrl c) (network c) (projectId c) (providerType c),
      HttpStart,
      WgDone]"

definition ws_goroutine :: "flags \<Rightarrow> call list" where
  "ws_goroutine c =
     (if providerType c = ''infura'' \<or> wsProviderUrl c \<noteq> ''''
      then [NewWsProxyServer (wsPort c) (wsProviderUrl c) (network c) (projectId c),
            WsStart,
            WgDone]
      else [LogPrintln http_only_notice,
            WgDone])"

text \<open>
  Which calls belong to the WebSocket server, and whether the WebSocket goroutine's body
  holds the call that starts it.
\<close>

fun is_ws_call :: "call \<Rightarrow> bool" where
  "is_ws_call (NewWsProxyServer p u n i) = True"
| "is_ws_call WsStart = True"
| "is_ws_call x = False"

definition ws_relay_started :: "flags \<Rightarrow> bool" where
  "ws_relay_started c = (WsStart \<in> set (http_goroutine c @ ws_goroutine c))"

text \<open>The arguments of the one \<^verbatim>\<open>proxy.NewWsProxyServer\<close> call, when it is made.\<close>

fun ws_server_args :: "call list \<Rightarrow> (string \<times> string \<times> string \<times> string) option" where
  "ws_server_args [] = None"
| "ws_server_args (NewWsProxyServer p u n i # xs) = Some (p, u, n, i)"
| "ws_server_args (x # xs) = ws_server_args xs"

section \<open>The wait group and the interleaving of the three threads\<close>

text \<open>
  The body of \<^verbatim>\<open>app.Action\<close>, statement by statement: \<^verbatim>\<open>wg.Add(2)\<close>, the two
  \<^verbatim>\<open>go func() {...}()\<close> statements, \<^verbatim>\<open>wg.Wait()\<close> and \<^verbatim>\<open>return nil\<close>.
\<close>

datatype instr = WgAdd nat | GoHttp | GoWs | WgWait | ReturnNil

definition Action_body :: "instr list" where
  "Action_body = [WgAdd 2, GoHttp, GoWs, WgWait, ReturnNil]"

datatype thread = MainThread | HttpThread | WsThread

text \<open>
  The state of the running action: the wait group's counter, what is left of the action's
  body, and what is left of each goroutine's body (\<^term>\<open>None\<close> until its \<^verbatim>\<open>go\<close>
  statement has run). \<^verbatim>\<open>wg.Done()\<close> on a counter of zero panics in Go
  (negative WaitGroup counter); the panic is a flag of the state, and a panicked program
  takes no further step.
\<close>

record world =
  counter :: int
  main_pc :: "instr list"
  http_pc :: "call list option"
  ws_pc :: "call list option"
  panicked :: bool

definition init :: world where
  "init = \<lparr>counter = 0, main_pc = Action_body, http_pc = None, ws_pc = None, panicked = False\<rparr>"

text \<open>
  A call is one step of its goroutine, taken when the call returns. \<^verbatim>\<open>Start\<close> blocks
  while its server is listening, so a goroutine whose next call is \<^verbatim>\<open>Start\<close> is serving.
  Whether a server ever stops is decided outside the supervisor (a failed bind, an external
  shutdown), so it is a parameter. The constructors, the log call and \<^verbatim>\<open>Done\<close> return.
\<close>

record env =
  http_stops :: bool
  ws_stops :: bool

fun returns :: "env \<Rightarrow> call \<Rightarrow> bool" where
  "returns e HttpStart = http_stops e"
| "returns e WsStart = ws_stops e"
| "returns e x = True"

fun exec_call :: "call \<Rightarrow> world \<Rightarrow> world" where
  "exec_call WgDone w =
     (if counter w - 1 < 0 then w\<lparr>panicked := True\<rparr> else w\<lparr>counter := counter w - 1\<rparr>)"
| "exec_call x w = w"

fun main_step :: "flags \<Rightarrow> world \<Rightarrow> world option" where
  "main_step c w =
     (case main_pc w of
        [] \<Rightarrow> None
      | WgAdd n # rest \<Rightarrow> Some (w\<lparr>counter := counter w + int n, main_pc := rest\<rparr>)
      | GoHttp # rest \<Rightarrow> Some (w\<lparr>http_pc := Some (http_goroutine c), main_pc := rest\<rparr>)
      | GoWs # rest \<Rightarrow> Some (w\<lparr>ws_pc := Some (ws_goroutine c), main_pc := rest\<rparr>)
      | WgWait # rest \<Rightarrow> (if counter w = 0 then Some (w\<lparr>main_pc := rest\<rparr>) else None)
      | ReturnNil # rest \<Rightarrow> Some (w\<lparr>main_pc := []\<rparr>))"

fun step :: "env \<Rightarrow> flags \<Rightarrow> thread \<Rightarrow> world \<Rightarrow> world option" where
  "step e c t w =
     (if panicked w then None
      else case t of
        MainThread \<Rightarrow> main_step c w
      | HttpThread \<Rightarrow>
          (case http_pc w of
             Some (x # rest) \<Rightarrow>
               (if returns e x then Some (exec_call x (w\<lparr>http_pc := Some rest\<rparr>)) else None)
           | _ \<Rightarrow> None)
      | WsThread \<Rightarrow>
          (case ws_pc w of
             Some (x # rest) \<Rightarrow>
               (if returns e x then Some (exec_call x (w\<lparr>ws_pc := Some rest\<rparr>)) else None)
           | _ \<Rightarrow> None))"

text \<open>
  A schedule names the thread that moves at each step; \<^term>\<open>None\<close> when the schedule asks
  a thread to move that cannot (it is blocked, finished or not created).
\<close>

fun run :: "env \<Rightarrow> flags \<Rightarrow> thread list \<Rightarrow> world \<Rightarrow> world option" where
  "run e c [] w = Some w"
| "run e c (t # ts) w = (case step e c t w of None \<Rightarrow> None | Some w' \<Rightarrow> run e c ts w')"

definition returned :: "world \<Rightarrow> bool" where
  "returned w = (main_pc w = [] \<and> \<not> panicked w)"

definition finished :: "call list option \<Rightarrow> bool" where
  "finished g = (g = Some [])"

definition can_move :: "env \<Rightarrow> flags \<Rightarrow> world \<Rightarrow> bool" where
  "can_move e c w = list_ex (\<lambda>t. step e c t w \<noteq> None) [MainThread, HttpThread, WsThread]"

section \<open>The calls a run makes\<close>

text \<open>
  The call a step of a goroutine makes is the first of what is left of its body; a statement
  of the action itself makes no call into the \<^verbatim>\<open>proxy\<close> or \<^verbatim>\<open>log\<close> package.
\<close>

fun next_call :: "thread \<Rightarrow> world \<Rightarrow> call list" where
  "next_call MainThread w = []"
| "next_call HttpThread w = (case http_pc w of Some (x # rest) \<Rightarrow> [x] | _ \<Rightarrow> [])"
| "next_call WsThread w = (case ws_pc w of Some (x # rest) \<Rightarrow> [x] | _ \<Rightarrow> [])"

text \<open>The calls one goroutine has made, and that have returned, along a schedule, in order.\<close>

fun calls_by :: "thread \<Rightarrow> env \<Rightarrow> flags \<Rightarrow> thread list \<Rightarrow> world \<Rightarrow> call list" where
  "calls_by th e c [] w = []"
| "calls_by th e c (t # ts) w =
     (case step e c t w of
        None \<Rightarrow> []
      | Some w' \<Rightarrow> (if t = th then next_call t w else []) @ calls_by th e c ts w')"

text \<open>
  A goroutine is inside a call when that call is the next of its body: the calls before it
  have returned and it has not. A goroutine inside \<^verbatim>\<open>Start\<close> has a server listening.
\<close>

definition serving :: "call \<Rightarrow> call list option \<Rightarrow> bool" where
  "serving s g = (case g of Some (x # rest) \<Rightarrow> x = s | _ \<Rightarrow> False)"

text \<open>
  \<^verbatim>\<open>Start\<close> has been called on a server, along a schedule from the initial state, when its
  goroutine is inside the call or the call has returned.
\<close>

definition http_start_called :: "env \<Rightarrow> flags \<Rightarrow> thread list \<Rightarrow> bool" where
  "http_start_called e c ts =
     (case run e c ts init of
        None \<Rightarrow> False
      | Some w \<Rightarrow> serving HttpStart (http_pc w) \<or> HttpStart \<in> set (calls_by HttpThread e c ts init))"

definition ws_start_called :: "env \<Rightarrow> flags \<Rightarrow> thread list \<Rightarrow> bool" where
  "ws_start_called e c ts =
     (case run e c ts init of
        None \<Rightarrow> False
      | Some w \<Rightarrow> serving WsStart (ws_pc w) \<or> WsStart \<in> set (calls_by WsThread e c ts init))"

text \<open>
  The ports servers are listening on in a state. Each goroutine starts the server its own
  constructor call returned, built with its port flag as first argument; the flags' usage
  strings name them "Local HTTP port to listen on" and "Local Websocket port to listen on".
\<close>

definition listening :: "flags \<Rightarrow> world \<Rightarrow> string list" where
  "listening c w =
     (if serving HttpStart (http_pc w) then [httpPort c] else [])
     @ (if serving WsStart (ws_pc w) then [wsPort c] else [])"

text \<open>What a goroutine has called, followed by what is left of its body, is its body.\<close>

definition traced :: "call list \<Rightarrow> call list option \<Rightarrow> call list \<Rightarrow> bool" where
  "traced body g made = (case g of None \<Rightarrow> made = [] | Some l \<Rightarrow> made @ l = body)"

text \<open>
  A call, and a state, with the network and the project id among the arguments of the
  constructor calls replaced.
\<close>

fun retarget :: "string \<Rightarrow> string \<Rightarrow> call \<Rightarrow> call" where
  "retarget n i (NewHttpProxyServer p u n0 i0 t) = NewHttpProxyServer p u n i t"
| "retarget n i (NewWsProxyServer p u n0 i0) = NewWsProxyServer p u n i"
| "retarget n i x = x"

definition retarget_world :: "string \<Rightarrow> string \<Rightarrow> world \<Rightarrow> world" where
  "retarget_world n i w =
     w\<lparr>http_pc := map_option (map (retarget n i)) (http_pc w),
       ws_pc := map_option (map (retarget n i)) (ws_pc w)\<rparr>"

section \<open>An invariant of the running action, and a bound on its steps\<close>

text \<open>
  \<^verbatim>\<open>wg.Done()\<close> is the last call of each goroutine body, so a goroutine still owes its
  \<^verbatim>\<open>Done\<close> exactly while something is left of its body (or it has not been created).
\<close>

definition todo :: "call list option \<Rightarrow> int" where
  "todo g = (case g of None \<Rightarrow> 1 | Some l \<Rightarrow> if l = [] then 0 else 1)"

definition at_suffix :: "call list \<Rightarrow> call list option \<Rightarrow> bool" where
  "at_suffix body g = (case g of None \<Rightarrow> False | Some l \<Rightarrow> suffix l body)"

definition inv :: "flags \<Rightarrow> world \<Rightarrow> bool" where
  "inv c w = (\<not> panicked w \<and>
     ((main_pc w = Action_body \<and> http_pc w = None \<and> ws_pc w = None \<and> counter w = 0)
    \<or> (main_pc w = drop 1 Action_body \<and> http_pc w = None \<and> ws_pc w = None \<and> counter w = 2)
    \<or> (main_pc w = drop 2 Action_body \<and> at_suffix (http_goroutine c) (http_pc w) \<and> ws_pc w = None
          \<and> counter w = todo (http_pc w) + 1)
    \<or> (main_pc w = drop 3 Action_body \<and> at_suffix (http_goroutine c) (http_pc w)
          \<and> at_suffix (ws_goroutine c) (ws_pc w) \<and> counter w = todo (http_pc w) + todo (ws_pc w))
    \<or> ((main_pc w = drop 4 Action_body \<or> main_pc w = []) \<and> http_pc w = Some [] \<and> ws_pc w = Some []
          \<and> counter w = 0)))"

text \<open>
  The number of steps the three threads can still take: a \<^verbatim>\<open>go\<close> statement counts for
  itself and for the body it creates.
\<close>

fun weight :: "flags \<Rightarrow> instr \<Rightarrow> nat" where
  "weight c GoHttp = Suc (length (http_goroutine c))"
| "weight c GoWs = Suc (length (ws_goroutine c))"
| "weight c i = 1"

definition steps_left :: "flags \<Rightarrow> world \<Rightarrow> nat" where
  "steps_left c w =
     sum_list (map (weight c) (main_pc w))
     + (case http_pc w of None \<Rightarrow> 0 | Some l \<Rightarrow> length l)
     + (case ws_pc w of None \<Rightarrow> 0 | Some l \<Rightarrow> length l)"

section \<open>The endpoint resolver\<close>

text \<open>
  Modelled from the spec: the provider modes of section 3. The \<^verbatim>\<open>proxy\<close> package, which
  holds the resolver and both relays, is not among the source files; only its caller is.
\<close>

datatype ProviderMode = DirectURL | Infura | Pocket

text \<open>Modelled from the spec: the two transports an endpoint is resolved for (section 4.1).\<close>

datatype transport = HTTP | WS

text \<open>Modelled from the spec: the three configuration errors section 4.1 names.\<close>

datatype ConfigError = MissingURL | UnsupportedNetwork | TransportUnsupported

text \<open>Modelled from the spec: \<^verbatim>\<open>ProxyConfig\<close> of section 3, field by field.\<close>

record ProxyConfig =
  cfgMode :: ProviderMode
  cfgNetwork :: string
  cfgProjectId :: string
  explicitHttpURL :: string
  explicitWsURL :: string
  cfgHttpPort :: string
  cfgWsPort :: string

text \<open>
  Modelled from the spec: the Infura rule of section 4.1, "compose
  \<^verbatim>\<open>https://{network}.infura.io/v3/{projectId}\<close> for HTTP and
  \<^verbatim>\<open>wss://{network}.infura.io/ws/v3/{projectId}\<close> for WS".
\<close>

definition infura_url :: "transport \<Rightarrow> string \<Rightarrow> string \<Rightarrow> string" where
  "infura_url t n p =
     (case t of
        HTTP \<Rightarrow> ''https://'' @ n @ ''.infura.io/v3/'' @ p
      | WS \<Rightarrow> ''wss://'' @ n @ ''.infura.io/ws/v3/'' @ p)"

text \<open>
  Modelled from the spec: the Pocket rule of section 4.1, "if \<^verbatim>\<open>projectId\<close> begins with the
  literal prefix \<^verbatim>\<open>lb/\<close>, strip it and compose the load-balancer path variant
  \<^verbatim>\<open>https://{network}.gateway.pokt.network/v1/lb/{id}\<close>; otherwise compose the
  per-application path variant \<^verbatim>\<open>https://{network}.gateway.pokt.network/v1/{id}\<close>".
\<close>

definition pocket_url :: "string \<Rightarrow> string \<Rightarrow> string" where
  "pocket_url n p =
     (if prefix ''lb/'' p
      then ''https://'' @ n @ ''.gateway.pokt.network/v1/lb/'' @ drop 3 p
      else ''https://'' @ n @ ''.gateway.pokt.network/v1/'' @ p)"

text \<open>
  Modelled from the spec: \<^verbatim>\<open>resolve(config, transport) -> URL | ConfigError\<close> of section
  4.1. The spec names the supported chains only by example ("mainnet/goerli/etc."), so the
  list of them is a parameter. The spec states the network check in the Infura rule, and
  states no check in the other two rules.
\<close>

definition resolve :: "string list \<Rightarrow> ProxyConfig \<Rightarrow> transport \<Rightarrow> ConfigError + string" where
  "resolve supported cfg t =
     (case cfgMode cfg of
        DirectURL \<Rightarrow>
          (let u = (case t of HTTP \<Rightarrow> explicitHttpURL cfg | WS \<Rightarrow> explicitWsURL cfg)
           in if u = [] then Inl MissingURL else Inr u)
      | Infura \<Rightarrow>
          (if cfgNetwork cfg \<in> set supported
           then Inr (infura_url t (cfgNetwork cfg) (cfgProjectId cfg))
           else Inl UnsupportedNetwork)
      | Pocket \<Rightarrow>
          (case t of
             HTTP \<Rightarrow> Inr (pocket_url (cfgNetwork cfg) (cfgProjectId cfg))
           | WS \<Rightarrow> Inl TransportUnsupported))"


section \<open>Lemmas about the running action\<close>

lemma inv_init: "inv c init"
  by (simp add: inv_def init_def)

lemma at_suffix_start: "at_suffix body (Some body)"
  by (simp add: at_suffix_def)

lemma at_suffix_step: "at_suffix body (Some (x # rest)) \<Longrightarrow> at_suffix body (Some rest)"
  by (auto simp: at_suffix_def dest: suffix_ConsD)

lemma in_suffix: "at_suffix body (Some (x # rest)) \<Longrightarrow> x \<in> set body"
proof -
  assume "at_suffix body (Some (x # rest))"
  then have "suffix (x # rest) body" by (simp add: at_suffix_def)
  then have "set (x # rest) \<subseteq> set body" by (rule set_mono_suffix)
  then show ?thesis by simp
qed

lemma http_done_last:
  "at_suffix (http_goroutine c) (Some (x # rest)) \<Longrightarrow> (x = WgDone) = (rest = [])"
  by (auto simp: at_suffix_def http_goroutine_def suffix_Cons)

lemma ws_done_last:
  "at_suffix (ws_goroutine c) (Some (x # rest)) \<Longrightarrow> (x = WgDone) = (rest = [])"
  by (auto simp: at_suffix_def ws_goroutine_def suffix_Cons split: if_splits)

lemma todo_http_start: "todo (Some (http_goroutine c)) = 1"
  by (simp add: todo_def http_goroutine_def)

lemma todo_ws_start: "todo (Some (ws_goroutine c)) = 1"
  by (simp add: todo_def ws_goroutine_def)

lemma todo_cons: "todo (Some (x # rest)) = 1"
  by (simp add: todo_def)

lemma todo_bounds: "0 \<le> todo g \<and> todo g \<le> 1"
  by (simp add: todo_def split: option.splits)

lemma todo_zero: "todo g = 0 \<longleftrightarrow> g = Some []"
  by (simp add: todo_def split: option.splits)

lemma todo_pos:
  assumes "todo g \<noteq> 0" and "at_suffix body g"
  shows "\<exists>x rest. g = Some (x # rest)"
proof (cases g)
  case None
  with assms(2) show ?thesis by (simp add: at_suffix_def)
next
  case (Some l)
  with assms(1) have "l \<noteq> []" by (auto simp: todo_def split: if_splits)
  with Some show ?thesis by (simp add: neq_Nil_conv)
qed

text \<open>The invariant is kept by a statement of the action.\<close>

lemma inv_main:
  assumes i: "inv c w" and s: "main_step c w = Some w'"
  shows "inv c w'"
proof -
  from i have np: "\<not> panicked w" by (simp add: inv_def)
  from i consider
      (a) "main_pc w = Action_body" "http_pc w = None" "ws_pc w = None" "counter w = 0"
    | (b) "main_pc w = drop 1 Action_body" "http_pc w = None" "ws_pc w = None" "counter w = 2"
    | (c) "main_pc w = drop 2 Action_body" "at_suffix (http_goroutine c) (http_pc w)" "ws_pc w = None"
          "counter w = todo (http_pc w) + 1"
    | (d) "main_pc w = drop 3 Action_body" "at_suffix (http_goroutine c) (http_pc w)"
          "at_suffix (ws_goroutine c) (ws_pc w)" "counter w = todo (http_pc w) + todo (ws_pc w)"
    | (f) "main_pc w = drop 4 Action_body" "http_pc w = Some []" "ws_pc w = Some []" "counter w = 0"
    | (g) "main_pc w = []"
    unfolding inv_def by (elim conjE disjE) blast+
  then show ?thesis
  proof cases
    case a
    with s have "w' = w\<lparr>counter := 2, main_pc := drop 1 Action_body\<rparr>"
      by (simp add: Action_body_def)
    with a np show ?thesis by (simp add: inv_def Action_body_def)
  next
    case b
    with s have "w' = w\<lparr>http_pc := Some (http_goroutine c), main_pc := drop 2 Action_body\<rparr>"
      by (simp add: Action_body_def)
    with b np show ?thesis by (simp add: inv_def Action_body_def at_suffix_start todo_http_start)
  next
    case c
    with s have "w' = w\<lparr>ws_pc := Some (ws_goroutine c), main_pc := drop 3 Action_body\<rparr>"
      by (simp add: Action_body_def)
    with c np show ?thesis by (simp add: inv_def Action_body_def at_suffix_start todo_ws_start)
  next
    case d
    with s have z: "counter w = 0" and w': "w' = w\<lparr>main_pc := drop 4 Action_body\<rparr>"
      by (simp_all add: Action_body_def split: if_splits)
    from z d(4) todo_bounds [of "http_pc w"] todo_bounds [of "ws_pc w"]
    have "todo (http_pc w) = 0" "todo (ws_pc w) = 0" by arith+
    then have "http_pc w = Some []" "ws_pc w = Some []" by (simp_all add: todo_zero)
    with w' z np show ?thesis by (simp add: inv_def Action_body_def)
  next
    case f
    with s have "w' = w\<lparr>main_pc := []\<rparr>" by (simp add: Action_body_def)
    with f np show ?thesis by (simp add: inv_def Action_body_def)
  next
    case g
    with s show ?thesis by simp
  qed
qed

text \<open>The invariant is kept by a call of the HTTP goroutine.\<close>

lemma inv_http:
  assumes i: "inv c w" and s: "step e c HttpThread w = Some w'"
  shows "inv c w'"
proof -
  from i have np: "\<not> panicked w" by (simp add: inv_def)
  from s np obtain x rest where pc: "http_pc w = Some (x # rest)"
    and w': "w' = exec_call x (w\<lparr>http_pc := Some rest\<rparr>)"
    by (auto split: option.splits list.splits if_splits)
  from i pc have suf: "at_suffix (http_goroutine c) (Some (x # rest))"
    and cnt: "1 \<le> counter w"
    and shape: "(main_pc w = drop 2 Action_body \<and> ws_pc w = None \<and> counter w = todo (http_pc w) + 1)
      \<or> (main_pc w = drop 3 Action_body \<and> at_suffix (ws_goroutine c) (ws_pc w)
            \<and> counter w = todo (http_pc w) + todo (ws_pc w))"
    using todo_bounds [of "ws_pc w"]
    by (auto simp: inv_def todo_cons)
  note last = http_done_last [OF suf]
  from suf have suf': "at_suffix (http_goroutine c) (Some rest)" by (rule at_suffix_step)
  show ?thesis
  proof (cases "x = WgDone")
    case True
    with last have r: "rest = []" by simp
    from True cnt w' r have "w' = w\<lparr>http_pc := Some [], counter := counter w - 1\<rparr>" by simp
    with shape np pc suf' r show ?thesis
      by (auto simp: inv_def todo_def)
  next
    case False
    with last have r: "rest \<noteq> []" by simp
    from False w' have "w' = w\<lparr>http_pc := Some rest\<rparr>" by (cases x) simp_all
    with shape np pc suf' r show ?thesis
      by (auto simp: inv_def todo_def)
  qed
qed

text \<open>The invariant is kept by a call of the WebSocket goroutine.\<close>

lemma inv_ws:
  assumes i: "inv c w" and s: "step e c WsThread w = Some w'"
  shows "inv c w'"
proof -
  from i have np: "\<not> panicked w" by (simp add: inv_def)
  from s np obtain x rest where pc: "ws_pc w = Some (x # rest)"
    and w': "w' = exec_call x (w\<lparr>ws_pc := Some rest\<rparr>)"
    by (auto split: option.splits list.splits if_splits)
  from i pc have suf: "at_suffix (ws_goroutine c) (Some (x # rest))"
    and cnt: "1 \<le> counter w"
    and shape: "main_pc w = drop 3 Action_body \<and> at_suffix (http_goroutine c) (http_pc w)
            \<and> counter w = todo (http_pc w) + todo (ws_pc w)"
    using todo_bounds [of "http_pc w"]
    by (auto simp: inv_def todo_cons)
  note last = ws_done_last [OF suf]
  from suf have suf': "at_suffix (ws_goroutine c) (Some rest)" by (rule at_suffix_step)
  show ?thesis
  proof (cases "x = WgDone")
    case True
    with last have r: "rest = []" by simp
    from True cnt w' r have "w' = w\<lparr>ws_pc := Some [], counter := counter w - 1\<rparr>" by simp
    with shape np pc suf' r show ?thesis
      by (auto simp: inv_def todo_def)
  next
    case False
    with last have r: "rest \<noteq> []" by simp
    from False w' have "w' = w\<lparr>ws_pc := Some rest\<rparr>" by (cases x) simp_all
    with shape np pc suf' r show ?thesis
      by (auto simp: inv_def todo_def)
  qed
qed

lemma inv_step: "inv c w \<Longrightarrow> step e c t w = Some w' \<Longrightarrow> inv c w'"
proof (cases t)
  case MainThread
  assume "inv c w" "step e c t w = Some w'"
  with MainThread show ?thesis using inv_main [of c w w'] by (simp split: if_splits)
next
  case HttpThread
  assume "inv c w" "step e c t w = Some w'"
  with HttpThread show ?thesis using inv_http [of c w e w'] by simp
next
  case WsThread
  assume "inv c w" "step e c t w = Some w'"
  with WsThread show ?thesis using inv_ws [of c w e w'] by simp
qed

lemma inv_run: "inv c w \<Longrightarrow> run e c ts w = Some w' \<Longrightarrow> inv c w'"
proof (induction ts arbitrary: w)
  case Nil
  then show ?case by simp
next
  case (Cons t ts)
  from Cons.prems(2) obtain w1 where s: "step e c t w = Some w1" and r: "run e c ts w1 = Some w'"
    by (cases "step e c t w") simp_all
  from Cons.prems(1) s have "inv c w1" by (rule inv_step)
  then show ?case using r by (rule Cons.IH)
qed

lemma inv_returned:
  assumes "inv c w" and "main_pc w = []"
  shows "http_pc w = Some [] \<and> ws_pc w = Some []"
  using assms by (auto simp: inv_def Action_body_def)

text \<open>Every step uses up one of the steps that are left.\<close>

lemma exec_call_pcs:
  "main_pc (exec_call x w) = main_pc w \<and> http_pc (exec_call x w) = http_pc w
     \<and> ws_pc (exec_call x w) = ws_pc w"
  by (cases x) simp_all

lemma steps_left_exec_call: "steps_left c (exec_call x w) = steps_left c w"
  by (simp add: steps_left_def exec_call_pcs)

lemma main_step_decreases: "main_step c w = Some w' \<Longrightarrow> steps_left c w' < steps_left c w"
  by (auto simp: steps_left_def split: list.splits instr.splits if_splits option.splits)

lemma step_decreases: "step e c t w = Some w' \<Longrightarrow> steps_left c w' < steps_left c w"
proof (cases t)
  case MainThread
  assume "step e c t w = Some w'"
  with MainThread have "main_step c w = Some w'" by (simp split: if_splits)
  then show ?thesis by (rule main_step_decreases)
next
  case HttpThread
  assume "step e c t w = Some w'"
  with HttpThread obtain x rest where "http_pc w = Some (x # rest)"
    and "w' = exec_call x (w\<lparr>http_pc := Some rest\<rparr>)"
    by (auto split: option.splits list.splits if_splits)
  then show ?thesis by (simp add: steps_left_exec_call) (simp add: steps_left_def)
next
  case WsThread
  assume "step e c t w = Some w'"
  with WsThread obtain x rest where "ws_pc w = Some (x # rest)"
    and "w' = exec_call x (w\<lparr>ws_pc := Some rest\<rparr>)"
    by (auto split: option.splits list.splits if_splits)
  then show ?thesis by (simp add: steps_left_exec_call) (simp add: steps_left_def)
qed

lemma run_length: "run e c ts w = Some w' \<Longrightarrow> length ts + steps_left c w' \<le> steps_left c w"
proof (induction ts arbitrary: w)
  case Nil
  then show ?case by simp
next
  case (Cons t ts)
  from Cons.prems obtain w1 where s: "step e c t w = Some w1" and r: "run e c ts w1 = Some w'"
    by (cases "step e c t w") simp_all
  from s have "steps_left c w1 < steps_left c w" by (rule step_decreases)
  moreover from r have "length ts + steps_left c w' \<le> steps_left c w1" by (rule Cons.IH)
  ultimately show ?case by simp
qed

lemma steps_left_init: "steps_left c init = 8 + length (ws_goroutine c)"
  by (simp add: steps_left_def init_def Action_body_def http_goroutine_def)

lemma run_append:
  "run e c ts w = Some w1 \<Longrightarrow> run e c ts' w1 = Some w2 \<Longrightarrow> run e c (ts @ ts') w = Some w2"
  by (induction ts arbitrary: w) (auto simp del: step.simps split: option.splits)

text \<open>While the action has not returned, some thread can move.\<close>

lemma returns_http: "x \<in> set (http_goroutine c) \<Longrightarrow> http_stops e \<Longrightarrow> returns e x"
  by (auto simp: http_goroutine_def)

lemma returns_ws:
  "x \<in> set (ws_goroutine c) \<Longrightarrow> ws_stops e \<or> \<not> ws_relay_started c \<Longrightarrow> returns e x"
  by (auto simp: ws_goroutine_def ws_relay_started_def http_goroutine_def split: if_splits)

lemma inv_can_move:
  assumes i: "inv c w" and m: "main_pc w \<noteq> []"
    and h: "http_stops e" and ws: "ws_stops e \<or> \<not> ws_relay_started c"
  shows "can_move e c w"
proof -
  from i have np: "\<not> panicked w" by (simp add: inv_def)
  show ?thesis
  proof (cases "main_step c w")
    case (Some w1)
    with np show ?thesis by (simp add: can_move_def)
  next
    case None
    with m have wait: "main_pc w = drop 3 Action_body" and cnt: "counter w \<noteq> 0"
      using i by (auto simp: inv_def Action_body_def split: if_splits)
    with i have sh: "at_suffix (http_goroutine c) (http_pc w)"
      and sw: "at_suffix (ws_goroutine c) (ws_pc w)"
      and c: "counter w = todo (http_pc w) + todo (ws_pc w)"
      by (auto simp: inv_def Action_body_def)
    from cnt c have "todo (http_pc w) \<noteq> 0 \<or> todo (ws_pc w) \<noteq> 0" by arith
    then show ?thesis
    proof
      assume "todo (http_pc w) \<noteq> 0"
      with sh obtain x rest where pc: "http_pc w = Some (x # rest)" using todo_pos by blast
      with sh have "x \<in> set (http_goroutine c)" by (simp add: in_suffix)
      with h have "returns e x" by (simp add: returns_http)
      with pc np show ?thesis by (simp add: can_move_def)
    next
      assume "todo (ws_pc w) \<noteq> 0"
      with sw obtain x rest where pc: "ws_pc w = Some (x # rest)" using todo_pos by blast
      with sw have "x \<in> set (ws_goroutine c)" by (simp add: in_suffix)
      with ws have "returns e x" using returns_ws by blast
      with pc np show ?thesis by (simp add: can_move_def)
    qed
  qed
qed

text \<open>So from every state the invariant holds in, the action can be run to its return.\<close>

lemma inv_reaches_return:
  assumes h: "http_stops e" and ws: "ws_stops e \<or> \<not> ws_relay_started c"
  shows "inv c w \<Longrightarrow> \<exists>ts w'. run e c ts w = Some w' \<and> returned w'"
proof (induction "steps_left c w" arbitrary: w rule: less_induct)
  case less
  show ?case
  proof (cases "main_pc w = []")
    case True
    with less.prems have "returned w" by (simp add: returned_def inv_def)
    then have "run e c [] w = Some w \<and> returned w" by simp
    then show ?thesis by blast
  next
    case False
    from less.prems False h ws have "can_move e c w" by (rule inv_can_move)
    then obtain t w1 where s: "step e c t w = Some w1"
      by (auto simp: can_move_def simp del: step.simps)
    from less.prems s have i1: "inv c w1" by (rule inv_step)
    from s have "steps_left c w1 < steps_left c w" by (rule step_decreases)
    from less.hyps [OF this i1] obtain ts w' where "run e c ts w1 = Some w'" and r: "returned w'"
      by blast
    with s have "run e c (t # ts) w = Some w'" by (simp del: step.simps)
    with r show ?thesis by blast
  qed
qed

section \<open>Lemmas about the calls of a run\<close>

lemma run_snoc:
  "run e c (ts @ [t]) w = (case run e c ts w of None \<Rightarrow> None | Some w1 \<Rightarrow> step e c t w1)"
  by (induction ts arbitrary: w) (auto simp del: step.simps split: option.splits)

lemma calls_by_snoc:
  "run e c ts w = Some w1 \<Longrightarrow>
     calls_by th e c (ts @ [t]) w =
       calls_by th e c ts w
       @ (case step e c t w1 of None \<Rightarrow> [] | Some w2 \<Rightarrow> if t = th then next_call t w1 else [])"
  by (induction ts arbitrary: w) (auto simp del: step.simps split: option.splits)

lemma goroutine_step_http:
  assumes "step e c HttpThread w = Some w'"
  shows "\<exists>x rest. http_pc w = Some (x # rest) \<and> returns e x \<and> http_pc w' = Some rest
           \<and> ws_pc w' = ws_pc w \<and> main_pc w' = main_pc w"
  using assms by (auto simp: exec_call_pcs split: option.splits list.splits if_splits)

lemma goroutine_step_ws:
  assumes "step e c WsThread w = Some w'"
  shows "\<exists>x rest. ws_pc w = Some (x # rest) \<and> returns e x \<and> ws_pc w' = Some rest
           \<and> http_pc w' = http_pc w \<and> main_pc w' = main_pc w"
  using assms by (auto simp: exec_call_pcs split: option.splits list.splits if_splits)

lemma main_step_pcs:
  assumes i: "inv c w" and s: "main_step c w = Some w'"
  shows "(http_pc w' = http_pc w \<or> (http_pc w = None \<and> http_pc w' = Some (http_goroutine c)))
       \<and> (ws_pc w' = ws_pc w \<or> (ws_pc w = None \<and> ws_pc w' = Some (ws_goroutine c)))"
proof -
  from i consider
      (a) "main_pc w = Action_body"
    | (b) "main_pc w = drop 1 Action_body" "http_pc w = None"
    | (c) "main_pc w = drop 2 Action_body" "ws_pc w = None"
    | (d) "main_pc w = drop 3 Action_body"
    | (f) "main_pc w = drop 4 Action_body"
    | (g) "main_pc w = []"
    unfolding inv_def by (elim conjE disjE) blast+
  then show ?thesis
  proof cases
    case a with s show ?thesis by (auto simp: Action_body_def)
  next
    case b with s show ?thesis by (auto simp: Action_body_def)
  next
    case c with s show ?thesis by (auto simp: Action_body_def)
  next
    case d with s show ?thesis by (auto simp: Action_body_def split: if_splits)
  next
    case f with s show ?thesis by (auto simp: Action_body_def)
  next
    case g with s show ?thesis by simp
  qed
qed


lemma traced_init: "traced body None []"
  by (simp add: traced_def)

lemma traced_spawn: "traced body (Some body) []"
  by (simp add: traced_def)

lemma traced_advance: "traced body (Some (x # rest)) made \<Longrightarrow> traced body (Some rest) (made @ [x])"
  by (simp add: traced_def)

lemma traced_calls: "traced body g made \<Longrightarrow> set made \<subseteq> set body"
  by (cases g) (auto simp: traced_def)

lemma traced_pending: "traced body (Some l) made \<Longrightarrow> set l \<subseteq> set body"
  by (auto simp: traced_def)

lemma traced_finished: "traced body (Some []) made \<Longrightarrow> made = body"
  by (simp add: traced_def)

lemma traced_step:
  assumes i: "inv c w1" and s: "step e c t w1 = Some w"
    and h: "traced (http_goroutine c) (http_pc w1) mh"
    and k: "traced (ws_goroutine c) (ws_pc w1) mw"
  shows "traced (http_goroutine c) (http_pc w) (mh @ (if t = HttpThread then next_call t w1 else []))
       \<and> traced (ws_goroutine c) (ws_pc w) (mw @ (if t = WsThread then next_call t w1 else []))"
proof (cases t)
  case MainThread
  with s have "main_step c w1 = Some w" by (simp split: if_splits)
  from main_step_pcs [OF i this] h k MainThread show ?thesis
    by (auto simp: traced_def)
next
  case HttpThread
  with s obtain x rest where "http_pc w1 = Some (x # rest)" "http_pc w = Some rest"
    "ws_pc w = ws_pc w1"
    using goroutine_step_http [of e c w1 w] by blast
  with h k HttpThread show ?thesis by (simp add: traced_def)
next
  case WsThread
  with s obtain x rest where "ws_pc w1 = Some (x # rest)" "ws_pc w = Some rest"
    "http_pc w = http_pc w1"
    using goroutine_step_ws [of e c w1 w] by blast
  with h k WsThread show ?thesis by (simp add: traced_def)
qed

lemma traced_run:
  "run e c ts init = Some w \<Longrightarrow>
     traced (http_goroutine c) (http_pc w) (calls_by HttpThread e c ts init)
     \<and> traced (ws_goroutine c) (ws_pc w) (calls_by WsThread e c ts init)"
proof (induction ts arbitrary: w rule: rev_induct)
  case Nil
  then show ?case by (auto simp: init_def traced_def)
next
  case (snoc t ts)
  from snoc.prems obtain w1 where r: "run e c ts init = Some w1" and s: "step e c t w1 = Some w"
    by (auto simp: run_snoc simp del: step.simps split: option.splits)
  from inv_init [of c] r have i: "inv c w1" by (rule inv_run)
  from snoc.IH [OF r] have h: "traced (http_goroutine c) (http_pc w1) (calls_by HttpThread e c ts init)"
    and k: "traced (ws_goroutine c) (ws_pc w1) (calls_by WsThread e c ts init)" by simp_all
  from traced_step [OF i s h k] s show ?case
    by (simp add: calls_by_snoc [OF r] del: step.simps)
qed

text \<open>A goroutine that cannot move is finished or inside its \<^verbatim>\<open>Start\<close>.\<close>

lemma blocked_call: "\<not> returns e x \<Longrightarrow> x = HttpStart \<or> x = WsStart"
  by (cases x) simp_all

lemma at_rest_shape:
  assumes r: "run e c ts init = Some w" and n: "\<not> can_move e c w"
  shows "(http_pc w = Some [] \<or> serving HttpStart (http_pc w))
       \<and> (ws_pc w = Some [] \<or> serving WsStart (ws_pc w))"
proof -
  from inv_init [of c] r have i: "inv c w" by (rule inv_run)
  then have np: "\<not> panicked w" by (simp add: inv_def)
  from n np have m: "main_step c w = None" and hn: "step e c HttpThread w = None"
    and wn: "step e c WsThread w = None"
    by (simp_all add: can_move_def)
  from i m obtain lh lw where lh: "http_pc w = Some lh" and lw: "ws_pc w = Some lw"
    by (auto simp: inv_def Action_body_def at_suffix_def split: if_splits option.splits)
  from traced_run [OF r] lh lw have sh: "set lh \<subseteq> set (http_goroutine c)"
    and sw: "set lw \<subseteq> set (ws_goroutine c)"
    by (auto dest: traced_pending)
  have "lh = [] \<or> serving HttpStart (Some lh)"
  proof (cases lh)
    case Nil then show ?thesis by simp
  next
    case (Cons x rest)
    with hn np lh have "\<not> returns e x" by (auto split: if_splits)
    then have "x = HttpStart \<or> x = WsStart" by (rule blocked_call)
    moreover from sh Cons have "x \<in> set (http_goroutine c)" by simp
    then have "x \<noteq> WsStart" by (auto simp: http_goroutine_def)
    ultimately show ?thesis using Cons by (simp add: serving_def)
  qed
  moreover have "lw = [] \<or> serving WsStart (Some lw)"
  proof (cases lw)
    case Nil then show ?thesis by simp
  next
    case (Cons x rest)
    with wn np lw have "\<not> returns e x" by (auto split: if_splits)
    then have "x = HttpStart \<or> x = WsStart" by (rule blocked_call)
    moreover from sw Cons have "x \<in> set (ws_goroutine c)" by simp
    then have "x \<noteq> HttpStart" by (auto simp: ws_goroutine_def split: if_splits)
    ultimately show ?thesis using Cons by (simp add: serving_def)
  qed
  ultimately show ?thesis using lh lw by simp
qed

lemma serving_pending: "serving s (Some l) \<Longrightarrow> s \<in> set l"
  by (cases l) (auto simp: serving_def)

lemma serving_Some: "serving s g \<Longrightarrow> \<exists>l. g = Some l \<and> s \<in> set l"
  by (cases g) (auto simp: serving_def split: list.splits)

text \<open>Whatever a goroutine has called or is inside of is a call of its body.\<close>

lemma ws_start_in_body:
  assumes r: "run e c ts init = Some w"
    and s: "serving WsStart (ws_pc w) \<or> WsStart \<in> set (calls_by WsThread e c ts init)"
  shows "WsStart \<in> set (ws_goroutine c)"
proof -
  from traced_run [OF r] have k: "traced (ws_goroutine c) (ws_pc w) (calls_by WsThread e c ts init)"
    by simp
  from s show ?thesis
  proof
    assume "serving WsStart (ws_pc w)"
    then obtain l where "ws_pc w = Some l" "WsStart \<in> set l" using serving_Some by blast
    with k show ?thesis using traced_pending by fastforce
  next
    assume "WsStart \<in> set (calls_by WsThread e c ts init)"
    with k show ?thesis using traced_calls by fastforce
  qed
qed

lemma ws_gate: "WsStart \<in> set (ws_goroutine c) \<longleftrightarrow> providerType c = ''infura'' \<or> wsProviderUrl c \<noteq> []"
  by (simp add: ws_goroutine_def)

lemma ws_called_at_rest:
  assumes r: "run e c ts init = Some w" and n: "\<not> can_move e c w"
    and g: "WsStart \<in> set (ws_goroutine c)"
  shows "serving WsStart (ws_pc w) \<or> WsStart \<in> set (calls_by WsThread e c ts init)"
proof -
  from at_rest_shape [OF r n] have "ws_pc w = Some [] \<or> serving WsStart (ws_pc w)" by simp
  then show ?thesis
  proof
    assume f: "ws_pc w = Some []"
    from traced_run [OF r] f have "calls_by WsThread e c ts init = ws_goroutine c"
      by (simp add: traced_def)
    with g show ?thesis by simp
  qed simp
qed

lemma http_called_at_rest:
  assumes r: "run e c ts init = Some w" and n: "\<not> can_move e c w"
  shows "serving HttpStart (http_pc w) \<or> HttpStart \<in> set (calls_by HttpThread e c ts init)"
proof -
  from at_rest_shape [OF r n] have "http_pc w = Some [] \<or> serving HttpStart (http_pc w)" by simp
  then show ?thesis
  proof
    assume f: "http_pc w = Some []"
    from traced_run [OF r] f have "calls_by HttpThread e c ts init = http_goroutine c"
      by (simp add: traced_def)
    then show ?thesis by (simp add: http_goroutine_def)
  qed simp
qed

lemma http_only_run:
  assumes r: "run e c ts init = Some w" and g: "WsStart \<notin> set (ws_goroutine c)"
  shows "\<not> list_ex is_ws_call (calls_by HttpThread e c ts init @ calls_by WsThread e c ts init)
       \<and> \<not> serving WsStart (ws_pc w)
       \<and> set (listening c w) \<subseteq> {httpPort c}
       \<and> (\<not> can_move e c w \<longrightarrow> LogPrintln http_only_notice \<in> set (calls_by WsThread e c ts init))"
proof -
  from g have body: "ws_goroutine c = [LogPrintln http_only_notice, WgDone]"
    by (simp add: ws_goroutine_def split: if_splits)
  from traced_run [OF r] have h: "set (calls_by HttpThread e c ts init) \<subseteq> set (http_goroutine c)"
    and k: "set (calls_by WsThread e c ts init) \<subseteq> set (ws_goroutine c)"
    by (auto dest: traced_calls)
  have a: "\<not> list_ex is_ws_call (calls_by HttpThread e c ts init @ calls_by WsThread e c ts init)"
  proof
    assume "list_ex is_ws_call (calls_by HttpThread e c ts init @ calls_by WsThread e c ts init)"
    then obtain x where x: "is_ws_call x"
      and "x \<in> set (calls_by HttpThread e c ts init) \<or> x \<in> set (calls_by WsThread e c ts init)"
      by (auto simp: list_ex_iff)
    with h k have "x \<in> set (http_goroutine c) \<or> x \<in> set (ws_goroutine c)" by blast
    with body x show False by (auto simp: http_goroutine_def)
  qed
  have b: "\<not> serving WsStart (ws_pc w)"
    using ws_start_in_body [OF r] g by blast
  then have c: "set (listening c w) \<subseteq> {httpPort c}" by (auto simp: listening_def)
  have d: "\<not> can_move e c w \<longrightarrow> LogPrintln http_only_notice \<in> set (calls_by WsThread e c ts init)"
  proof
    assume n: "\<not> can_move e c w"
    from at_rest_shape [OF r n] b have "ws_pc w = Some []" by simp
    with traced_run [OF r] have "calls_by WsThread e c ts init = ws_goroutine c"
      by (simp add: traced_def)
    with body show "LogPrintln http_only_notice \<in> set (calls_by WsThread e c ts init)" by simp
  qed
  from a b c d show ?thesis by simp
qed


text \<open>Every run can be continued until no thread can move.\<close>

lemma reaches_rest: "\<exists>ts' w'. run e c ts' w = Some w' \<and> \<not> can_move e c w'"
proof (induction "steps_left c w" arbitrary: w rule: less_induct)
  case less
  show ?case
  proof (cases "can_move e c w")
    case False
    then have "run e c [] w = Some w \<and> \<not> can_move e c w" by simp
    then show ?thesis by blast
  next
    case True
    then obtain t w1 where s: "step e c t w = Some w1"
      by (auto simp: can_move_def simp del: step.simps)
    then have "steps_left c w1 < steps_left c w" by (rule step_decreases)
    from less.hyps [OF this] obtain ts w' where "run e c ts w1 = Some w'" and r: "\<not> can_move e c w'"
      by blast
    with s have "run e c (t # ts) w = Some w'" by (simp del: step.simps)
    with r show ?thesis by blast
  qed
qed

text \<open>Changing the network and the project id changes two arguments and nothing else.\<close>

lemma retarget_http:
  "http_goroutine (c\<lparr>network := n, projectId := i\<rparr>) = map (retarget n i) (http_goroutine c)"
  by (simp add: http_goroutine_def)

lemma retarget_ws:
  "ws_goroutine (c\<lparr>network := n, projectId := i\<rparr>) = map (retarget n i) (ws_goroutine c)"
  by (simp add: ws_goroutine_def)

lemma retarget_returns: "returns e (retarget n i x) = returns e x"
  by (cases x) simp_all

lemma exec_call_eq:
  "exec_call x w =
     (if x = WgDone
      then (if counter w - 1 < 0 then w\<lparr>panicked := True\<rparr> else w\<lparr>counter := counter w - 1\<rparr>)
      else w)"
  by (cases x) simp_all

lemma retarget_done: "retarget n i x = WgDone \<longleftrightarrow> x = WgDone"
  by (cases x) simp_all

lemma retarget_main_step:
  "main_step (c\<lparr>network := n, projectId := i\<rparr>) (retarget_world n i w)
     = map_option (retarget_world n i) (main_step c w)"
  by (simp add: retarget_world_def retarget_http retarget_ws split: list.splits instr.splits)

lemma retarget_step:
  "step e (c\<lparr>network := n, projectId := i\<rparr>) t (retarget_world n i w)
     = map_option (retarget_world n i) (step e c t w)"
proof (cases t)
  case MainThread
  then show ?thesis
    using retarget_main_step [where c = c and n = n and i = i and w = w]
    by (simp add: retarget_world_def)
next
  case HttpThread
  then show ?thesis
    by (cases "http_pc w")
       (simp_all add: retarget_world_def retarget_returns retarget_done exec_call_eq
          split: list.splits)
next
  case WsThread
  then show ?thesis
    by (cases "ws_pc w")
       (simp_all add: retarget_world_def retarget_returns retarget_done exec_call_eq
          split: list.splits)
qed

lemma retarget_run:
  "run e (c\<lparr>network := n, projectId := i\<rparr>) ts (retarget_world n i w)
     = map_option (retarget_world n i) (run e c ts w)"
proof (induction ts arbitrary: w)
  case Nil
  then show ?case by simp
next
  case (Cons t ts)
  show ?case
  proof (cases "step e c t w")
    case None
    with retarget_step [where e = e and c = c and n = n and i = i and t = t and w = w] show ?thesis by (simp del: step.simps)
  next
    case (Some w1)
    with retarget_step [where e = e and c = c and n = n and i = i and t = t and w = w] Cons.IH [of w1] show ?thesis by (simp del: step.simps)
  qed
qed

lemma retarget_next_call: "next_call t (retarget_world n i w) = map (retarget n i) (next_call t w)"
  by (cases t) (auto simp: retarget_world_def split: option.splits list.splits)

lemma retarget_calls_by:
  "calls_by th e (c\<lparr>network := n, projectId := i\<rparr>) ts (retarget_world n i w)
     = map (retarget n i) (calls_by th e c ts w)"
proof (induction ts arbitrary: w)
  case Nil
  then show ?case by simp
next
  case (Cons t ts)
  show ?case
  proof (cases "step e c t w")
    case None
    with retarget_step [where e = e and c = c and n = n and i = i and t = t and w = w] show ?thesis by (simp del: step.simps)
  next
    case (Some w1)
    with retarget_step [where e = e and c = c and n = n and i = i and t = t and w = w] Cons.IH [of w1] show ?thesis
      by (simp add: retarget_next_call del: step.simps)
  qed
qed

lemma retarget_init: "retarget_world n i init = init"
  by (simp add: retarget_world_def init_def)

section \<open>The supervisor\<close>

text \<open>
  C1, as stated, fails where the two port flags name the same port: with \<^verbatim>\<open>httpPort\<close> set
  to \<^verbatim>\<open>8546\<close>, the default of \<^verbatim>\<open>wsPort\<close>, provider type \<^verbatim>\<open>pocket\<close> and no explicit
  WebSocket URL, the gate is closed, and after the HTTP goroutine's constructor call the HTTP
  server is listening on the WebSocket port.
\<close>

theorem http_relay_listens_on_ws_port:
  "\<not> (providerType (default_flags\<lparr>httpPort := ''8546'', providerType := ''pocket''\<rparr>) = ''infura''
       \<or> wsProviderUrl (default_flags\<lparr>httpPort := ''8546'', providerType := ''pocket''\<rparr>) \<noteq> [])
   \<and> run \<lparr>http_stops = False, ws_stops = False\<rparr>
         (default_flags\<lparr>httpPort := ''8546'', providerType := ''pocket''\<rparr>)
         [MainThread, MainThread, HttpThread] init
       = Some \<lparr>counter = 2, main_pc = [GoWs, WgWait, ReturnNil],
               http_pc = Some [HttpStart, WgDone], ws_pc = None, panicked = False\<rparr>
   \<and> wsPort (default_flags\<lparr>httpPort := ''8546'', providerType := ''pocket''\<rparr>)
       \<in> set (listening (default_flags\<lparr>httpPort := ''8546'', providerType := ''pocket''\<rparr>)
                \<lparr>counter = 2, main_pc = [GoWs, WgWait, ReturnNil],
                 http_pc = Some [HttpStart, WgDone], ws_pc = None, panicked = False\<rparr>)"
  by (simp add: default_flags_def init_def Action_body_def http_goroutine_def listening_def
      serving_def)

text \<open>
  C1, amended. For every startup configuration and either behaviour of the servers, the
  action calls \<^verbatim>\<open>Start\<close> on a WebSocket server in some run exactly when \<^verbatim>\<open>providerType\<close>
  is \<^verbatim>\<open>"infura"\<close> or \<^verbatim>\<open>wsProviderUrl\<close> is non-empty, and then it does so in every run:
  every run can be continued until no thread can move, and wherever no thread can move the
  call has been made. The HTTP server's \<^verbatim>\<open>Start\<close> is called in every run in the same sense,
  whatever the gate. When the gate is closed, no run makes a call on a WebSocket server, no
  WebSocket server is ever listening, so the only port a server listens on is the HTTP port
  (the WebSocket port stays free unless \<^verbatim>\<open>httpPort\<close> names the same port), and wherever
  no thread can move the notice has been logged.
\<close>

theorem ws_relay_start_gate:
  "((\<exists>ts. ws_start_called e c ts) \<longleftrightarrow> providerType c = ''infura'' \<or> wsProviderUrl c \<noteq> [])
   \<and> (providerType c = ''infura'' \<or> wsProviderUrl c \<noteq> [] \<longrightarrow>
        ws_start_called e c [MainThread, MainThread, MainThread, WsThread])
   \<and> http_start_called e c [MainThread, MainThread, HttpThread]
   \<and> (\<forall>ts w. run e c ts init = Some w \<longrightarrow>
        (\<exists>ts' w'. run e c (ts @ ts') init = Some w' \<and> \<not> can_move e c w')
      \<and> (\<not> can_move e c w \<longrightarrow>
            http_start_called e c ts
          \<and> (providerType c = ''infura'' \<or> wsProviderUrl c \<noteq> [] \<longrightarrow> ws_start_called e c ts))
      \<and> (\<not> (providerType c = ''infura'' \<or> wsProviderUrl c \<noteq> []) \<longrightarrow>
            \<not> list_ex is_ws_call (calls_by HttpThread e c ts init @ calls_by WsThread e c ts init)
          \<and> \<not> serving WsStart (ws_pc w)
          \<and> set (listening c w) \<subseteq> {httpPort c}
          \<and> (\<not> can_move e c w \<longrightarrow>
                LogPrintln http_only_notice \<in> set (calls_by WsThread e c ts init))))"
proof (intro conjI allI impI)
  show "(\<exists>ts. ws_start_called e c ts) \<longleftrightarrow> providerType c = ''infura'' \<or> wsProviderUrl c \<noteq> []"
  proof
    assume "\<exists>ts. ws_start_called e c ts"
    then obtain ts w where r: "run e c ts init = Some w"
      and s: "serving WsStart (ws_pc w) \<or> WsStart \<in> set (calls_by WsThread e c ts init)"
      by (auto simp: ws_start_called_def split: option.splits)
    from ws_start_in_body [OF r s] show "providerType c = ''infura'' \<or> wsProviderUrl c \<noteq> []"
      by (simp add: ws_gate)
  next
    assume "providerType c = ''infura'' \<or> wsProviderUrl c \<noteq> []"
    then have "ws_start_called e c [MainThread, MainThread, MainThread, WsThread]"
      by (auto simp: ws_start_called_def init_def Action_body_def ws_goroutine_def serving_def)
    then show "\<exists>ts. ws_start_called e c ts" ..
  qed
next
  assume "providerType c = ''infura'' \<or> wsProviderUrl c \<noteq> []"
  then show "ws_start_called e c [MainThread, MainThread, MainThread, WsThread]"
    by (auto simp: ws_start_called_def init_def Action_body_def ws_goroutine_def serving_def)
next
  show "http_start_called e c [MainThread, MainThread, HttpThread]"
    by (simp add: http_start_called_def init_def Action_body_def http_goroutine_def serving_def)
next
  fix ts w
  assume r: "run e c ts init = Some w"
  from reaches_rest [of e c w] obtain ts' w' where "run e c ts' w = Some w'" and n: "\<not> can_move e c w'"
    by blast
  with r have "run e c (ts @ ts') init = Some w'" by (simp add: run_append)
  with n show "\<exists>ts' w'. run e c (ts @ ts') init = Some w' \<and> \<not> can_move e c w'" by blast
next
  fix ts w
  assume r: "run e c ts init = Some w" and n: "\<not> can_move e c w"
  from http_called_at_rest [OF r n] r show "http_start_called e c ts"
    by (simp add: http_start_called_def)
next
  fix ts w
  assume r: "run e c ts init = Some w" and n: "\<not> can_move e c w"
    and g: "providerType c = ''infura'' \<or> wsProviderUrl c \<noteq> []"
  from g have "WsStart \<in> set (ws_goroutine c)" by (simp add: ws_gate)
  from ws_called_at_rest [OF r n this] r show "ws_start_called e c ts"
    by (simp add: ws_start_called_def)
next
  fix ts w
  assume r: "run e c ts init = Some w"
    and g: "\<not> (providerType c = ''infura'' \<or> wsProviderUrl c \<noteq> [])"
  from g have b: "WsStart \<notin> set (ws_goroutine c)" by (simp add: ws_gate)
  from http_only_run [OF r b]
  show "\<not> list_ex is_ws_call (calls_by HttpThread e c ts init @ calls_by WsThread e c ts init)"
    by simp
next
  fix ts w
  assume r: "run e c ts init = Some w"
    and g: "\<not> (providerType c = ''infura'' \<or> wsProviderUrl c \<noteq> [])"
  from g have b: "WsStart \<notin> set (ws_goroutine c)" by (simp add: ws_gate)
  from http_only_run [OF r b] show "\<not> serving WsStart (ws_pc w)" by simp
next
  fix ts w
  assume r: "run e c ts init = Some w"
    and g: "\<not> (providerType c = ''infura'' \<or> wsProviderUrl c \<noteq> [])"
  from g have b: "WsStart \<notin> set (ws_goroutine c)" by (simp add: ws_gate)
  from http_only_run [OF r b] show "set (listening c w) \<subseteq> {httpPort c}" by simp
next
  fix ts w
  assume r: "run e c ts init = Some w"
    and g: "\<not> (providerType c = ''infura'' \<or> wsProviderUrl c \<noteq> [])"
    and n: "\<not> can_move e c w"
  from g have b: "WsStart \<notin> set (ws_goroutine c)" by (simp add: ws_gate)
  from http_only_run [OF r b] n
  show "LogPrintln http_only_notice \<in> set (calls_by WsThread e c ts init)" by simp
qed

text \<open>
  A run in HTTP-only mode where the HTTP server never stops: provider type \<^verbatim>\<open>pocket\<close>, no
  explicit URL. After six steps the WebSocket goroutine has logged and finished, the HTTP
  goroutine is inside \<^verbatim>\<open>Start\<close>, the action waits, and no thread can move.
\<close>

theorem ws_relay_start_gate_witness:
  "run \<lparr>http_stops = False, ws_stops = False\<rparr> (default_flags\<lparr>providerType := ''pocket''\<rparr>)
     [MainThread, MainThread, MainThread, WsThread, WsThread, HttpThread] init
   = Some \<lparr>counter = 1, main_pc = [WgWait, ReturnNil], http_pc = Some [HttpStart, WgDone],
           ws_pc = Some [], panicked = False\<rparr>
   \<and> \<not> can_move \<lparr>http_stops = False, ws_stops = False\<rparr> (default_flags\<lparr>providerType := ''pocket''\<rparr>)
         \<lparr>counter = 1, main_pc = [WgWait, ReturnNil], http_pc = Some [HttpStart, WgDone],
          ws_pc = Some [], panicked = False\<rparr>
   \<and> \<not> (providerType (default_flags\<lparr>providerType := ''pocket''\<rparr>) = ''infura''
        \<or> wsProviderUrl (default_flags\<lparr>providerType := ''pocket''\<rparr>) \<noteq> [])
   \<and> http_start_called \<lparr>http_stops = False, ws_stops = False\<rparr>
        (default_flags\<lparr>providerType := ''pocket''\<rparr>)
        [MainThread, MainThread, MainThread, WsThread, WsThread, HttpThread]
   \<and> LogPrintln http_only_notice
       \<in> set (calls_by WsThread \<lparr>http_stops = False, ws_stops = False\<rparr>
                (default_flags\<lparr>providerType := ''pocket''\<rparr>)
                [MainThread, MainThread, MainThread, WsThread, WsThread, HttpThread] init)
   \<and> ws_start_called \<lparr>http_stops = False, ws_stops = False\<rparr> default_flags
        [MainThread, MainThread, MainThread, WsThread]"
proof -
  let ?e = "\<lparr>http_stops = False, ws_stops = False\<rparr>"
  let ?c = "default_flags\<lparr>providerType := ''pocket''\<rparr>"
  let ?ts = "[MainThread, MainThread, MainThread, WsThread, WsThread, HttpThread]"
  let ?w = "\<lparr>counter = 1, main_pc = [WgWait, ReturnNil], http_pc = Some [HttpStart, WgDone],
           ws_pc = Some [], panicked = False\<rparr>"
  have r: "run ?e ?c ?ts init = Some ?w"
    by (simp add: init_def Action_body_def default_flags_def http_goroutine_def ws_goroutine_def)
  have n: "\<not> can_move ?e ?c ?w" by (simp add: can_move_def)
  have g: "\<not> (providerType ?c = ''infura'' \<or> wsProviderUrl ?c \<noteq> [])"
    by (simp add: default_flags_def)
  have d: "providerType default_flags = ''infura'' \<or> wsProviderUrl default_flags \<noteq> []"
    by (simp add: default_flags_def)
  from ws_relay_start_gate [of ?e ?c] r n g
  have "http_start_called ?e ?c ?ts"
    and "LogPrintln http_only_notice \<in> set (calls_by WsThread ?e ?c ?ts init)"
    by blast+
  moreover from ws_relay_start_gate [of ?e default_flags] d
  have "ws_start_called ?e default_flags [MainThread, MainThread, MainThread, WsThread]"
    by blast
  ultimately show ?thesis using r n g by simp
qed

text \<open>
  C6. The action creates both goroutines before it waits, neither waiting for the other:
  after its first three statements the counter is 2 and both bodies are whole. Under every
  schedule, when the action has returned both goroutines have run to their end, and no
  \<^verbatim>\<open>Done\<close> has panicked. No schedule is longer than 11 steps. When the HTTP server stops,
  and the WebSocket server stops or was never started, every reachable state in which the
  action has not returned has a thread that can move, and every run can be continued to the
  action's return: the join ends. In HTTP-only mode the WebSocket goroutine is the log call
  followed by \<^verbatim>\<open>Done\<close>, so there the join needs the HTTP server alone to stop.
\<close>

theorem action_joins_both_tasks:
  "run e c [MainThread, MainThread, MainThread] init =
     Some \<lparr>counter = 2, main_pc = [WgWait, ReturnNil], http_pc = Some (http_goroutine c),
           ws_pc = Some (ws_goroutine c), panicked = False\<rparr>
   \<and> (\<forall>ts w. run e c ts init = Some w \<longrightarrow>
         \<not> panicked w \<and> length ts \<le> 11 \<and>
         (main_pc w = [] \<longrightarrow> finished (http_pc w) \<and> finished (ws_pc w)))
   \<and> (http_stops e \<and> (ws_stops e \<or> \<not> ws_relay_started c) \<longrightarrow>
         (\<forall>ts w. run e c ts init = Some w \<longrightarrow>
            (returned w \<or> can_move e c w) \<and>
            (\<exists>ts' w'. run e c (ts @ ts') init = Some w' \<and> returned w')))
   \<and> (\<not> ws_relay_started c \<longrightarrow> ws_goroutine c = [LogPrintln http_only_notice, WgDone])"
proof (intro conjI allI impI)
  show "run e c [MainThread, MainThread, MainThread] init =
     Some \<lparr>counter = 2, main_pc = [WgWait, ReturnNil], http_pc = Some (http_goroutine c),
           ws_pc = Some (ws_goroutine c), panicked = False\<rparr>"
    by (simp add: init_def Action_body_def)
next
  fix ts w
  assume r: "run e c ts init = Some w"
  with inv_init [of c] have i: "inv c w" by (rule inv_run)
  then show "\<not> panicked w" by (simp add: inv_def)
next
  fix ts w
  assume r: "run e c ts init = Some w"
  then have "length ts + steps_left c w \<le> steps_left c init" by (rule run_length)
  moreover have "length (ws_goroutine c) \<le> 3" by (simp add: ws_goroutine_def)
  ultimately show "length ts \<le> 11" by (simp add: steps_left_init)
next
  fix ts w
  assume r: "run e c ts init = Some w" and m: "main_pc w = []"
  from inv_init [of c] r have "inv c w" by (rule inv_run)
  from this m have "http_pc w = Some [] \<and> ws_pc w = Some []" by (rule inv_returned)
  then show "finished (http_pc w)" by (simp add: finished_def)
next
  fix ts w
  assume r: "run e c ts init = Some w" and m: "main_pc w = []"
  from inv_init [of c] r have "inv c w" by (rule inv_run)
  from this m have "http_pc w = Some [] \<and> ws_pc w = Some []" by (rule inv_returned)
  then show "finished (ws_pc w)" by (simp add: finished_def)
next
  fix ts w
  assume stops: "http_stops e \<and> (ws_stops e \<or> \<not> ws_relay_started c)"
    and r: "run e c ts init = Some w"
  from inv_init [of c] r have i: "inv c w" by (rule inv_run)
  show "returned w \<or> can_move e c w"
  proof (cases "main_pc w = []")
    case True
    with i show ?thesis by (simp add: returned_def inv_def)
  next
    case False
    with i stops have "can_move e c w" by (simp add: inv_can_move)
    then show ?thesis ..
  qed
next
  fix ts w
  assume stops: "http_stops e \<and> (ws_stops e \<or> \<not> ws_relay_started c)"
    and r: "run e c ts init = Some w"
  from inv_init [of c] r have "inv c w" by (rule inv_run)
  with stops obtain ts' w' where r': "run e c ts' w = Some w'" and ret: "returned w'"
    using inv_reaches_return [of e c w] by blast
  from r r' have "run e c (ts @ ts') init = Some w'" by (rule run_append)
  with ret show "\<exists>ts' w'. run e c (ts @ ts') init = Some w' \<and> returned w'" by blast
next
  assume "\<not> ws_relay_started c"
  then show "ws_goroutine c = [LogPrintln http_only_notice, WgDone]"
    by (simp add: ws_relay_started_def ws_goroutine_def http_goroutine_def split: if_splits)
qed

text \<open>
  A run of C6 in HTTP-only mode: provider type \<^verbatim>\<open>pocket\<close>, no explicit URL, an HTTP server
  that stops and a WebSocket server that would not. The schedule below runs the action to its
  return in ten steps.
\<close>

theorem action_joins_both_tasks_witness:
  "run \<lparr>http_stops = True, ws_stops = False\<rparr> (default_flags\<lparr>providerType := ''pocket''\<rparr>)
     [MainThread, MainThread, MainThread, WsThread, HttpThread, WsThread, HttpThread, HttpThread,
      MainThread, MainThread] init
   = Some \<lparr>counter = 0, main_pc = [], http_pc = Some [], ws_pc = Some [], panicked = False\<rparr>
   \<and> \<not> ws_relay_started (default_flags\<lparr>providerType := ''pocket''\<rparr>)
   \<and> ws_goroutine (default_flags\<lparr>providerType := ''pocket''\<rparr>) = [LogPrintln http_only_notice, WgDone]
   \<and> returned \<lparr>counter = 0, main_pc = [], http_pc = Some [], ws_pc = Some [], panicked = False\<rparr>
   \<and> finished (http_pc \<lparr>counter = 0, main_pc = [], http_pc = Some [], ws_pc = Some [], panicked = False\<rparr>)
   \<and> finished (ws_pc \<lparr>counter = 0, main_pc = [], http_pc = Some [], ws_pc = Some [], panicked = False\<rparr>)"
proof -
  let ?e = "\<lparr>http_stops = True, ws_stops = False\<rparr>"
  let ?c = "default_flags\<lparr>providerType := ''pocket''\<rparr>"
  let ?ts = "[MainThread, MainThread, MainThread, WsThread, HttpThread, WsThread, HttpThread,
      HttpThread, MainThread, MainThread]"
  let ?w = "\<lparr>counter = 0, main_pc = [], http_pc = Some [], ws_pc = Some [], panicked = False\<rparr>"
  have r: "run ?e ?c ?ts init = Some ?w"
    by (simp add: init_def Action_body_def default_flags_def http_goroutine_def ws_goroutine_def)
  have n: "\<not> ws_relay_started ?c"
    by (simp add: ws_relay_started_def default_flags_def http_goroutine_def ws_goroutine_def)
  have m: "main_pc ?w = []" by simp
  from action_joins_both_tasks [of ?e ?c] r n m
  have "finished (http_pc ?w)" and "finished (ws_pc ?w)"
    and "ws_goroutine ?c = [LogPrintln http_only_notice, WgDone]"
    by blast+
  with r n show ?thesis by (simp add: returned_def)
qed

text \<open>
  C9. The WebSocket goroutine passes the constructor the port, the explicit URL, the network
  and the project id, and not the provider type. So for two configurations that differ only
  in \<^verbatim>\<open>providerType\<close> and both start the WebSocket relay, the constructor's arguments are
  the same, and so is anything the constructor computes from them (its upstream endpoint).
\<close>

theorem ws_server_ignores_providerType:
  assumes "c' = c\<lparr>providerType := t\<rparr>" and "ws_relay_started c" and "ws_relay_started c'"
  shows "ws_server_args (ws_goroutine c) = Some (wsPort c, wsProviderUrl c, network c, projectId c)
     \<and> ws_server_args (ws_goroutine c') = ws_server_args (ws_goroutine c)
     \<and> (\<forall>upstream. map_option upstream (ws_server_args (ws_goroutine c'))
                    = map_option upstream (ws_server_args (ws_goroutine c)))"
proof -
  from assms(2) have a: "ws_goroutine c =
      [NewWsProxyServer (wsPort c) (wsProviderUrl c) (network c) (projectId c), WsStart, WgDone]"
    by (simp add: ws_relay_started_def ws_goroutine_def http_goroutine_def split: if_splits)
  from assms(3) have "ws_goroutine c' =
      [NewWsProxyServer (wsPort c') (wsProviderUrl c') (network c') (projectId c'), WsStart, WgDone]"
    by (simp add: ws_relay_started_def ws_goroutine_def http_goroutine_def split: if_splits)
  with assms(1) have b: "ws_goroutine c' =
      [NewWsProxyServer (wsPort c) (wsProviderUrl c) (network c) (projectId c), WsStart, WgDone]"
    by simp
  from a b show ?thesis by simp
qed

text \<open>
  With an explicit WebSocket URL the relay is started under provider type \<^verbatim>\<open>infura\<close> and
  under \<^verbatim>\<open>pocket\<close>, with the same four arguments.
\<close>

theorem ws_server_ignores_providerType_witness:
  "ws_relay_started (default_flags\<lparr>wsProviderUrl := ''ws://node:8546''\<rparr>)
   \<and> ws_relay_started (default_flags\<lparr>wsProviderUrl := ''ws://node:8546'', providerType := ''pocket''\<rparr>)
   \<and> ws_server_args (ws_goroutine (default_flags\<lparr>wsProviderUrl := ''ws://node:8546'', providerType := ''pocket''\<rparr>))
       = Some (''8546'', ''ws://node:8546'', ''goerli'', [])
   \<and> ws_server_args (ws_goroutine (default_flags\<lparr>wsProviderUrl := ''ws://node:8546''\<rparr>))
       = Some (''8546'', ''ws://node:8546'', ''goerli'', [])"
proof -
  let ?c = "default_flags\<lparr>wsProviderUrl := ''ws://node:8546''\<rparr>"
  let ?c' = "default_flags\<lparr>wsProviderUrl := ''ws://node:8546'', providerType := ''pocket''\<rparr>"
  have d: "?c' = ?c\<lparr>providerType := ''pocket''\<rparr>" by simp
  have s: "ws_relay_started ?c"
    by (simp add: ws_relay_started_def ws_goroutine_def http_goroutine_def default_flags_def)
  have s': "ws_relay_started ?c'"
    by (simp add: ws_relay_started_def ws_goroutine_def http_goroutine_def default_flags_def)
  from ws_server_ignores_providerType [OF d s s'] s s' show ?thesis
    by (simp add: default_flags_def ws_goroutine_def)
qed

text \<open>
  C10. The supervisor validates neither the network nor the project id. With every flag at
  its default, after the action's first three statements and one step of each goroutine both
  constructors have been called, the empty project id among their arguments, and both
  goroutines are inside \<^verbatim>\<open>Start\<close>. In every run with the defaults nothing panics, and
  wherever no thread can move both \<^verbatim>\<open>Start\<close> calls have been made. For every configuration,
  a run with another network and another project id is the same run, step for step, with
  those two arguments of the constructor calls replaced: no step depends on them.
\<close>

theorem defaults_start_both_relays:
  "run e default_flags [MainThread, MainThread, MainThread, HttpThread, WsThread] init
     = Some \<lparr>counter = 2, main_pc = [WgWait, ReturnNil], http_pc = Some [HttpStart, WgDone],
             ws_pc = Some [WsStart, WgDone], panicked = False\<rparr>
   \<and> calls_by HttpThread e default_flags
        [MainThread, MainThread, MainThread, HttpThread, WsThread] init
       = [NewHttpProxyServer ''8545'' [] ''goerli'' [] ''infura'']
   \<and> calls_by WsThread e default_flags
        [MainThread, MainThread, MainThread, HttpThread, WsThread] init
       = [NewWsProxyServer ''8546'' [] ''goerli'' []]
   \<and> http_start_called e default_flags [MainThread, MainThread, MainThread, HttpThread, WsThread]
   \<and> ws_start_called e default_flags [MainThread, MainThread, MainThread, HttpThread, WsThread]
   \<and> (\<forall>ts w. run e default_flags ts init = Some w \<longrightarrow>
         \<not> panicked w
       \<and> (\<not> can_move e default_flags w \<longrightarrow>
             http_start_called e default_flags ts \<and> ws_start_called e default_flags ts))
   \<and> (\<forall>c n i ts th.
         run e (c\<lparr>network := n, projectId := i\<rparr>) ts init
           = map_option (retarget_world n i) (run e c ts init)
       \<and> calls_by th e (c\<lparr>network := n, projectId := i\<rparr>) ts init
           = map (retarget n i) (calls_by th e c ts init))"
proof (intro conjI allI impI)
  show "run e default_flags [MainThread, MainThread, MainThread, HttpThread, WsThread] init
     = Some \<lparr>counter = 2, main_pc = [WgWait, ReturnNil], http_pc = Some [HttpStart, WgDone],
             ws_pc = Some [WsStart, WgDone], panicked = False\<rparr>"
    by (simp add: init_def Action_body_def default_flags_def http_goroutine_def ws_goroutine_def)
next
  show "calls_by HttpThread e default_flags
        [MainThread, MainThread, MainThread, HttpThread, WsThread] init
       = [NewHttpProxyServer ''8545'' [] ''goerli'' [] ''infura'']"
    by (simp add: init_def Action_body_def default_flags_def http_goroutine_def ws_goroutine_def)
next
  show "calls_by WsThread e default_flags
        [MainThread, MainThread, MainThread, HttpThread, WsThread] init
       = [NewWsProxyServer ''8546'' [] ''goerli'' []]"
    by (simp add: init_def Action_body_def default_flags_def http_goroutine_def ws_goroutine_def)
next
  show "http_start_called e default_flags [MainThread, MainThread, MainThread, HttpThread, WsThread]"
    by (simp add: http_start_called_def serving_def init_def Action_body_def default_flags_def
        http_goroutine_def ws_goroutine_def)
next
  show "ws_start_called e default_flags [MainThread, MainThread, MainThread, HttpThread, WsThread]"
    by (simp add: ws_start_called_def serving_def init_def Action_body_def default_flags_def
        http_goroutine_def ws_goroutine_def)
next
  fix ts w
  assume r: "run e default_flags ts init = Some w"
  with inv_init [of default_flags] have "inv default_flags w" by (rule inv_run)
  then show "\<not> panicked w" by (simp add: inv_def)
next
  fix ts w
  assume r: "run e default_flags ts init = Some w" and n: "\<not> can_move e default_flags w"
  from http_called_at_rest [OF r n] r show "http_start_called e default_flags ts"
    by (simp add: http_start_called_def)
next
  fix ts w
  assume r: "run e default_flags ts init = Some w" and n: "\<not> can_move e default_flags w"
  have "WsStart \<in> set (ws_goroutine default_flags)"
    by (simp add: ws_goroutine_def default_flags_def)
  from ws_called_at_rest [OF r n this] r show "ws_start_called e default_flags ts"
    by (simp add: ws_start_called_def)
next
  fix c n i ts th
  show "run e (c\<lparr>network := n, projectId := i\<rparr>) ts init
           = map_option (retarget_world n i) (run e c ts init)"
    using retarget_run [where e = e and c = c and n = n and i = i and ts = ts and w = init]
    by (simp add: retarget_init)
next
  fix c n i ts th
  show "calls_by th e (c\<lparr>network := n, projectId := i\<rparr>) ts init
           = map (retarget n i) (calls_by th e c ts init)"
    using retarget_calls_by [where th = th and e = e and c = c and n = n and i = i and ts = ts
        and w = init]
    by (simp add: retarget_init)
qed

text \<open>
  With the defaults and two servers that never stop, the five steps above end where no thread
  can move: the action waits and both goroutines are inside \<^verbatim>\<open>Start\<close>.
\<close>

theorem defaults_start_both_relays_witness:
  "run \<lparr>http_stops = False, ws_stops = False\<rparr> default_flags
      [MainThread, MainThread, MainThread, HttpThread, WsThread] init
     = Some \<lparr>counter = 2, main_pc = [WgWait, ReturnNil], http_pc = Some [HttpStart, WgDone],
             ws_pc = Some [WsStart, WgDone], panicked = False\<rparr>
   \<and> \<not> can_move \<lparr>http_stops = False, ws_stops = False\<rparr> default_flags
         \<lparr>counter = 2, main_pc = [WgWait, ReturnNil], http_pc = Some [HttpStart, WgDone],
          ws_pc = Some [WsStart, WgDone], panicked = False\<rparr>
   \<and> http_start_called \<lparr>http_stops = False, ws_stops = False\<rparr> default_flags
        [MainThread, MainThread, MainThread, HttpThread, WsThread]
   \<and> ws_start_called \<lparr>http_stops = False, ws_stops = False\<rparr> default_flags
        [MainThread, MainThread, MainThread, HttpThread, WsThread]"
proof -
  let ?e = "\<lparr>http_stops = False, ws_stops = False\<rparr>"
  let ?ts = "[MainThread, MainThread, MainThread, HttpThread, WsThread]"
  let ?w = "\<lparr>counter = 2, main_pc = [WgWait, ReturnNil], http_pc = Some [HttpStart, WgDone],
             ws_pc = Some [WsStart, WgDone], panicked = False\<rparr>"
  have r: "run ?e default_flags ?ts init = Some ?w"
    using defaults_start_both_relays [of ?e] by blast
  have n: "\<not> can_move ?e default_flags ?w" by (simp add: can_move_def)
  from defaults_start_both_relays [of ?e] r n
  have "http_start_called ?e default_flags ?ts \<and> ws_start_called ?e default_flags ?ts"
    by blast
  with r n show ?thesis by simp
qed

section \<open>The resolver\<close>

text \<open>
  C3. In mode Infura, for every supported network and every project id, the resolver yields
  \<^verbatim>\<open>https://{network}.infura.io/v3/{projectId}\<close> for HTTP and
  \<^verbatim>\<open>wss://{network}.infura.io/ws/v3/{projectId}\<close> for WS; for the network \<^verbatim>\<open>goerli\<close>
  and the project id \<^verbatim>\<open>abc123\<close> these are \<^verbatim>\<open>https://goerli.infura.io/v3/abc123\<close> and
  \<^verbatim>\<open>wss://goerli.infura.io/ws/v3/abc123\<close>.
\<close>

theorem infura_resolution:
  "(cfgMode cfg = Infura \<and> cfgNetwork cfg \<in> set supported \<longrightarrow>
      resolve supported cfg HTTP
        = Inr (''https://'' @ cfgNetwork cfg @ ''.infura.io/v3/'' @ cfgProjectId cfg)
      \<and> resolve supported cfg WS
        = Inr (''wss://'' @ cfgNetwork cfg @ ''.infura.io/ws/v3/'' @ cfgProjectId cfg))
   \<and> (''goerli'' \<in> set supported \<longrightarrow>
      resolve supported \<lparr>cfgMode = Infura, cfgNetwork = ''goerli'', cfgProjectId = ''abc123'',
          explicitHttpURL = hu, explicitWsURL = wu, cfgHttpPort = hp, cfgWsPort = wp\<rparr> HTTP
        = Inr ''https://goerli.infura.io/v3/abc123''
      \<and> resolve supported \<lparr>cfgMode = Infura, cfgNetwork = ''goerli'', cfgProjectId = ''abc123'',
          explicitHttpURL = hu, explicitWsURL = wu, cfgHttpPort = hp, cfgWsPort = wp\<rparr> WS
        = Inr ''wss://goerli.infura.io/ws/v3/abc123'')"
  by (simp add: resolve_def infura_url_def)

text \<open>The same on the chain list \<^verbatim>\<open>mainnet\<close>, \<^verbatim>\<open>goerli\<close>, for \<^verbatim>\<open>mainnet\<close> and a project id.\<close>

theorem infura_resolution_witness:
  "''mainnet'' \<in> set [''mainnet'', ''goerli'']
   \<and> resolve [''mainnet'', ''goerli''] \<lparr>cfgMode = Infura, cfgNetwork = ''mainnet'',
        cfgProjectId = ''9f2c'', explicitHttpURL = [], explicitWsURL = [], cfgHttpPort = ''8545'',
        cfgWsPort = ''8546''\<rparr> HTTP = Inr ''https://mainnet.infura.io/v3/9f2c''
   \<and> resolve [''mainnet'', ''goerli''] \<lparr>cfgMode = Infura, cfgNetwork = ''mainnet'',
        cfgProjectId = ''9f2c'', explicitHttpURL = [], explicitWsURL = [], cfgHttpPort = ''8545'',
        cfgWsPort = ''8546''\<rparr> WS = Inr ''wss://mainnet.infura.io/ws/v3/9f2c''
   \<and> resolve [''mainnet'', ''goerli''] \<lparr>cfgMode = Infura, cfgNetwork = ''goerli'',
        cfgProjectId = ''abc123'', explicitHttpURL = [], explicitWsURL = [], cfgHttpPort = ''8545'',
        cfgWsPort = ''8546''\<rparr> HTTP = Inr ''https://goerli.infura.io/v3/abc123''"
  using infura_resolution [of "\<lparr>cfgMode = Infura, cfgNetwork = ''mainnet'',
        cfgProjectId = ''9f2c'', explicitHttpURL = [], explicitWsURL = [], cfgHttpPort = ''8545'',
        cfgWsPort = ''8546''\<rparr>" "[''mainnet'', ''goerli'']" "[]" "[]" "''8545''" "''8546''"]
  by simp

text \<open>
  C4. In mode Pocket, for every network and project id, the HTTP endpoint is
  \<^verbatim>\<open>https://{network}.gateway.pokt.network/v1/lb/{id}\<close> when the project id is \<^verbatim>\<open>lb/\<close>
  followed by \<^verbatim>\<open>{id}\<close> (the prefix stripped, not repeated in the path), and
  \<^verbatim>\<open>https://{network}.gateway.pokt.network/v1/{id}\<close> with the whole project id otherwise.
\<close>

theorem pocket_http_resolution:
  "cfgMode cfg = Pocket \<Longrightarrow>
     (\<forall>ident. cfgProjectId cfg = ''lb/'' @ ident \<longrightarrow>
        resolve supported cfg HTTP
          = Inr (''https://'' @ cfgNetwork cfg @ ''.gateway.pokt.network/v1/lb/'' @ ident))
     \<and> (\<not> prefix ''lb/'' (cfgProjectId cfg) \<longrightarrow>
        resolve supported cfg HTTP
          = Inr (''https://'' @ cfgNetwork cfg @ ''.gateway.pokt.network/v1/'' @ cfgProjectId cfg))"
  by (simp add: resolve_def pocket_url_def)

text \<open>The two examples of the spec: \<^verbatim>\<open>mainnet\<close> with \<^verbatim>\<open>lb/xyz\<close> and with \<^verbatim>\<open>xyz\<close>.\<close>

theorem pocket_http_resolution_witness:
  "resolve [] \<lparr>cfgMode = Pocket, cfgNetwork = ''mainnet'', cfgProjectId = ''lb/xyz'',
        explicitHttpURL = [], explicitWsURL = [], cfgHttpPort = ''8545'', cfgWsPort = ''8546''\<rparr> HTTP
     = Inr ''https://mainnet.gateway.pokt.network/v1/lb/xyz''
   \<and> \<not> prefix ''lb/'' ''xyz''
   \<and> resolve [] \<lparr>cfgMode = Pocket, cfgNetwork = ''mainnet'', cfgProjectId = ''xyz'',
        explicitHttpURL = [], explicitWsURL = [], cfgHttpPort = ''8545'', cfgWsPort = ''8546''\<rparr> HTTP
     = Inr ''https://mainnet.gateway.pokt.network/v1/xyz''"
  using pocket_http_resolution [of "\<lparr>cfgMode = Pocket, cfgNetwork = ''mainnet'',
        cfgProjectId = ''lb/xyz'', explicitHttpURL = [], explicitWsURL = [], cfgHttpPort = ''8545'',
        cfgWsPort = ''8546''\<rparr>" "[]"]
    pocket_http_resolution [of "\<lparr>cfgMode = Pocket, cfgNetwork = ''mainnet'',
        cfgProjectId = ''xyz'', explicitHttpURL = [], explicitWsURL = [], cfgHttpPort = ''8545'',
        cfgWsPort = ''8546''\<rparr>" "[]"]
  by simp




end
